theory Spec2Isabelle
  imports Complex_Main "HOL-Library.While_Combinator"
begin

section \<open>Strings of the build script\<close>

text \<open>
  The script \<^verbatim>\<open>scripts/build-data.mjs\<close> turns \<^verbatim>\<open>data/shows.csv\<close> into
  \<^verbatim>\<open>data/shows.json\<close>. A JavaScript string is modelled as a \<^typ>\<open>string\<close>, one
  \<^typ>\<open>char\<close> per code unit. The character classes of the runtime (white space for
  \<^verbatim>\<open>trim\<close>, the case mappings) are written out for the ASCII range, which is the range
  the model covers; a character outside it is treated as a letter without case that is not
  white space.
\<close>

definition dquote :: char where
  "dquote = CHR 0x22"

definition newline :: char where
  "newline = CHR 0x0A"

definition creturn :: char where
  "creturn = CHR 0x0D"

definition comma :: char where
  "comma = CHR '',''"

text \<open>White space and line terminators that \<^verbatim>\<open>String.prototype.trim\<close> removes:
  TAB, LF, VT, FF, CR and SP.\<close>

definition is_ws :: "char \<Rightarrow> bool" where
  "is_ws c = (c = CHR 0x09 \<or> c = CHR 0x0A \<or> c = CHR 0x0B \<or> c = CHR 0x0C \<or> c = CHR 0x0D \<or> c = CHR 0x20)"

definition trim :: "string \<Rightarrow> string" where
  "trim s = rev (dropWhile is_ws (rev (dropWhile is_ws s)))"

section \<open>The CSV parser\<close>

text \<open>
  \<^verbatim>\<open>parseCsv\<close> keeps five variables: the finished rows, the row being built, the cell
  being built, the scan index and the quoted-mode flag.
\<close>

record pstate =
  rows :: "string list list"
  row :: "string list"
  cur :: string
  i :: nat
  inQuotes :: bool

text \<open>\<^verbatim>\<open>row.some(c => c.trim() !== "")\<close>\<close>

definition some_nonblank :: "string list \<Rightarrow> bool" where
  "some_nonblank r = list_ex (\<lambda>c. trim c \<noteq> []) r"

text \<open>\<^verbatim>\<open>if (row.some(...)) rows.push(row)\<close>\<close>

definition push_row :: "string list list \<Rightarrow> string list \<Rightarrow> string list list" where
  "push_row rs r = (if some_nonblank r then rs @ [r] else rs)"

text \<open>
  One iteration of the \<^verbatim>\<open>while\<close> body, entered with \<open>i < text.length\<close>. The read
  \<^verbatim>\<open>text[i + 1]\<close> past the end gives \<^verbatim>\<open>undefined\<close>, which is not a quote: that is the
  bound check in the escaped-quote test.
\<close>

definition step :: "string \<Rightarrow> pstate \<Rightarrow> pstate" where
  "step text st =
     (let ch = text ! i st in
      if inQuotes st then
        (if ch = dquote then
           (if i st + 1 < length text \<and> text ! (i st + 1) = dquote
            then st\<lparr>cur := cur st @ [dquote], i := i st + 2\<rparr>
            else st\<lparr>inQuotes := False, i := i st + 1\<rparr>)
         else st\<lparr>cur := cur st @ [ch], i := i st + 1\<rparr>)
      else if ch = dquote then st\<lparr>inQuotes := True, i := i st + 1\<rparr>
      else if ch = comma then st\<lparr>row := row st @ [cur st], cur := [], i := i st + 1\<rparr>
      else if ch = newline then
        st\<lparr>rows := push_row (rows st) (row st @ [cur st]), row := [], cur := [], i := i st + 1\<rparr>
      else if ch = creturn then st\<lparr>i := i st + 1\<rparr>
      else st\<lparr>cur := cur st @ [ch], i := i st + 1\<rparr>)"

function loop :: "string \<Rightarrow> pstate \<Rightarrow> pstate" where
  "loop text st = (if i st < length text then loop text (step text st) else st)"
  by pat_completeness auto
termination
  by (relation "measure (\<lambda>(text, st). length text - i st)")
     (auto simp: step_def Let_def)

declare loop.simps [simp del]

definition init :: pstate where
  "init = \<lparr>rows = [], row = [], cur = [], i = 0, inQuotes = False\<rparr>"

text \<open>After the loop: \<^verbatim>\<open>row.push(cur)\<close>, the last row is pushed under the same test.\<close>

definition finish :: "pstate \<Rightarrow> string list list" where
  "finish st = push_row (rows st) (row st @ [cur st])"

definition parseCsv :: "string \<Rightarrow> string list list" where
  "parseCsv text = finish (loop text init)"

section \<open>Coercions of the row normalizer\<close>

text \<open>\<^verbatim>\<open>toUpperCase\<close> and \<^verbatim>\<open>toLowerCase\<close> on the ASCII letters.\<close>

definition lower_letters :: string where
  "lower_letters = ''abcdefghijklmnopqrstuvwxyz''"

definition upper_letters :: string where
  "upper_letters = ''ABCDEFGHIJKLMNOPQRSTUVWXYZ''"

definition upper_char :: "char \<Rightarrow> char" where
  "upper_char c = (case map_of (zip lower_letters upper_letters) c of Some u \<Rightarrow> u | None \<Rightarrow> c)"

definition lower_char :: "char \<Rightarrow> char" where
  "lower_char c = (case map_of (zip upper_letters lower_letters) c of Some l \<Rightarrow> l | None \<Rightarrow> c)"

definition toUpperCase :: "string \<Rightarrow> string" where
  "toUpperCase s = map upper_char s"

definition toLowerCase :: "string \<Rightarrow> string" where
  "toLowerCase s = map lower_char s"

text \<open>\<^verbatim>\<open>normBool\<close>: the argument is always a string, so \<^verbatim>\<open>v || ""\<close> is \<open>v\<close>.\<close>

definition normBool :: "string \<Rightarrow> bool" where
  "normBool v =
     (let t = toUpperCase (trim v)
      in t = ''A'' \<or> t = ''Y'' \<or> t = ''YES'' \<or> t = ''TRUE'' \<or> t = ''1'')"

text \<open>
  \<^verbatim>\<open>String.prototype.split\<close> with the pattern \<^verbatim>\<open>/[;|,]/g\<close>: the pieces between the
  delimiters, empty pieces included, so a string with \<open>n\<close> delimiters gives \<open>n + 1\<close> pieces.
\<close>

definition is_delim :: "char \<Rightarrow> bool" where
  "is_delim c = (c = CHR '';'' \<or> c = CHR ''|'' \<or> c = CHR '','')"

fun split_on :: "(char \<Rightarrow> bool) \<Rightarrow> string \<Rightarrow> string list" where
  "split_on d [] = [[]]"
| "split_on d (x # xs) =
     (if d x then [] # split_on d xs
      else (case split_on d xs of p # ps \<Rightarrow> (x # p) # ps | [] \<Rightarrow> [[x]]))"

definition splitGenres :: "string \<Rightarrow> string list" where
  "splitGenres v =
     (let raw = trim v
      in if raw = [] then []
         else map toLowerCase (filter (\<lambda>s. s \<noteq> []) (map trim (split_on is_delim raw))))"

text \<open>
  \<^verbatim>\<open>Number(t)\<close> follows the grammar \<open>StringNumericLiteral\<close> of ECMAScript: optional
  white space around a signed decimal literal (digits, a fraction, an exponent, or the word
  \<open>Infinity\<close>) or an unsigned binary, octal or hexadecimal integer literal; the empty
  string is \<open>0\<close>; anything else is \<open>NaN\<close>. \<open>Fin q\<close> is the number nearest to the
  mathematical value \<open>q\<close> of the literal (for an integer of magnitude up to \<open>2\<^sup>5\<^sup>3\<close>, the
  integer itself); a value that rounds beyond the largest finite number is infinite.
\<close>

datatype number = Fin rat | PosInf | NegInf | NaN

definition digit_of :: "char \<Rightarrow> nat option" where
  "digit_of c =
     map_of (zip ''0123456789abcdef'' [0, 1, 2, 3, 4, 5, 6, 7, 8, 9, 10, 11, 12, 13, 14, 15])
       (lower_char c)"

definition digit_in :: "nat \<Rightarrow> char \<Rightarrow> bool" where
  "digit_in b c = (case digit_of c of Some d \<Rightarrow> d < b | None \<Rightarrow> False)"

definition digits_val :: "nat \<Rightarrow> string \<Rightarrow> nat" where
  "digits_val b ds = foldl (\<lambda>a c. b * a + (case digit_of c of Some d \<Rightarrow> d | None \<Rightarrow> 0)) 0 ds"

definition all_digits :: "nat \<Rightarrow> string \<Rightarrow> bool" where
  "all_digits b ds = (ds \<noteq> [] \<and> list_all (digit_in b) ds)"

definition unsigned_integer :: "string \<Rightarrow> int option" where
  "unsigned_integer s = (if all_digits 10 s then Some (int (digits_val 10 s)) else None)"

definition signed_integer :: "string \<Rightarrow> int option" where
  "signed_integer s =
     (case s of
        [] \<Rightarrow> None
      | c # r \<Rightarrow>
          if c = CHR ''+'' then unsigned_integer r
          else if c = CHR ''-'' then map_option uminus (unsigned_integer r)
          else unsigned_integer s)"

definition exponent_part :: "string \<Rightarrow> int option" where
  "exponent_part s =
     (case s of
        [] \<Rightarrow> Some 0
      | c # r \<Rightarrow> if c = CHR ''e'' \<or> c = CHR ''E'' then signed_integer r else None)"

definition fraction_part :: "string \<Rightarrow> string \<times> string" where
  "fraction_part s =
     (case s of
        [] \<Rightarrow> ([], [])
      | c # r \<Rightarrow>
          if c = CHR ''.'' then (takeWhile (digit_in 10) r, dropWhile (digit_in 10) r)
          else ([], s))"

definition scale10 :: "rat \<Rightarrow> int \<Rightarrow> rat" where
  "scale10 q e = (if 0 \<le> e then q * 10 ^ nat e else q / 10 ^ nat (- e))"

definition unsigned_decimal :: "string \<Rightarrow> number" where
  "unsigned_decimal s =
     (if s = ''Infinity'' then PosInf
      else
        (let ip = takeWhile (digit_in 10) s;
             (fp, r) = fraction_part (dropWhile (digit_in 10) s)
         in if ip = [] \<and> fp = [] then NaN
            else
              (case exponent_part r of
                 None \<Rightarrow> NaN
               | Some e \<Rightarrow>
                   Fin (scale10
                     (of_nat (digits_val 10 ip) + of_nat (digits_val 10 fp) / 10 ^ length fp) e))))"

definition negate :: "number \<Rightarrow> number" where
  "negate n = (case n of Fin q \<Rightarrow> Fin (- q) | PosInf \<Rightarrow> NegInf | NegInf \<Rightarrow> PosInf | NaN \<Rightarrow> NaN)"

definition str_decimal :: "string \<Rightarrow> number" where
  "str_decimal s =
     (case s of
        [] \<Rightarrow> NaN
      | c # r \<Rightarrow>
          if c = CHR ''+'' then unsigned_decimal r
          else if c = CHR ''-'' then negate (unsigned_decimal r)
          else unsigned_decimal s)"

definition radix_of :: "char \<Rightarrow> nat option" where
  "radix_of p =
     (if p = CHR ''x'' \<or> p = CHR ''X'' then Some 16
      else if p = CHR ''o'' \<or> p = CHR ''O'' then Some 8
      else if p = CHR ''b'' \<or> p = CHR ''B'' then Some 2
      else None)"

definition non_decimal :: "string \<Rightarrow> nat option" where
  "non_decimal s =
     (case s of
        z # p # ds \<Rightarrow>
          (case radix_of p of
             Some b \<Rightarrow> if z = CHR ''0'' \<and> all_digits b ds then Some (digits_val b ds) else None
           | None \<Rightarrow> None)
      | _ \<Rightarrow> None)"

definition round_double :: "rat \<Rightarrow> number" where
  "round_double q =
     (if 2 ^ 1024 - 2 ^ 970 \<le> \<bar>q\<bar> then (if 0 < q then PosInf else NegInf) else Fin q)"

definition Number :: "string \<Rightarrow> number" where
  "Number s =
     (let t = trim s
      in if t = [] then Fin 0
         else
           (case non_decimal t of
              Some n \<Rightarrow> round_double (of_nat n)
            | None \<Rightarrow> (case str_decimal t of Fin q \<Rightarrow> round_double q | n \<Rightarrow> n)))"

definition isFinite :: "number \<Rightarrow> bool" where
  "isFinite n = (case n of Fin q \<Rightarrow> True | _ \<Rightarrow> False)"

text \<open>
  \<^verbatim>\<open>toNumberOrNull\<close>: \<^verbatim>\<open>replace("%", "")\<close> with a string pattern removes the first
  occurrence of the percent sign, wherever it stands.
\<close>

definition toNumberOrNull :: "string \<Rightarrow> number option" where
  "toNumberOrNull v =
     (let t = remove1 (CHR ''%'') (trim v)
      in if t = [] then None
         else (let n = Number t in if isFinite n then Some n else None))"

section \<open>The run: header check and row normalization\<close>

record ShowRecord =
  date :: string
  title :: string
  theatre :: string
  place :: string
  city :: string
  host :: bool
  removed :: bool
  genres :: "string list"
  rating :: "number option"
  comment :: string

text \<open>
  Every \<^verbatim>\<open>process.exit(1)\<close> of \<^verbatim>\<open>main\<close> is an error value; it carries what the run
  prints before it exits. A run that exits this way writes no file.
\<close>

datatype error =
  MissingInput
| EmptyCsv
| MissingColumns "string list" "string list"

text \<open>
  A run that reaches \<^verbatim>\<open>writeFileSync\<close>: the row numbers of the \<^verbatim>\<open>console.warn\<close> lines
  in the order printed, and the \<^verbatim>\<open>shows\<close> array of the document written.
\<close>

record run_output =
  warned :: "nat list"
  written :: "ShowRecord list"

definition required :: "string list" where
  "required = [''Datum'', ''Nazev'', ''Soubor'', ''Misto'', ''Mesto'', ''Hostovacka'',
     ''StazenoZR'', ''Zanry'', ''Hodnoceni'', ''Komentar'']"

text \<open>
  \<^verbatim>\<open>Object.fromEntries(header.map((h, i) => [h, i]))\<close>: a later entry replaces an earlier
  one with the same key. The object is only read at the ten required names, none of which
  is a property of \<^verbatim>\<open>Object.prototype\<close>, so a name that is not a header cell reads
  \<^verbatim>\<open>undefined\<close>.
\<close>

definition fromEntries :: "(string \<times> nat) list \<Rightarrow> (string \<rightharpoonup> nat)" where
  "fromEntries es = foldl (\<lambda>m (k, v). m(k \<mapsto> v)) Map.empty es"

definition header_idx :: "string list \<Rightarrow> (string \<rightharpoonup> nat)" where
  "header_idx header = fromEntries (map (\<lambda>(k, h). (h, k)) (enumerate 0 header))"

text \<open>\<^verbatim>\<open>(r[idx[name]] ?? "").trim()\<close>: a cell the row does not have reads as empty.\<close>

definition get :: "(string \<rightharpoonup> nat) \<Rightarrow> string list \<Rightarrow> string \<Rightarrow> string" where
  "get idx r name =
     trim (case idx name of
             None \<Rightarrow> []
           | Some k \<Rightarrow> if k < length r then r ! k else [])"

text \<open>
  The callback of \<^verbatim>\<open>rows.slice(1).map\<close>: \<open>Inl n\<close> is the warning for row \<open>n\<close> and
  the \<^verbatim>\<open>null\<close> returned with it, \<open>Inr s\<close> the record returned.
\<close>

definition normRow :: "(string \<rightharpoonup> nat) \<Rightarrow> nat \<times> string list \<Rightarrow> nat + ShowRecord" where
  "normRow idx p =
     (case p of (rowIndex, r) \<Rightarrow>
        (let date' = get idx r ''Datum'';
             title' = get idx r ''Nazev'';
             theatre' = get idx r ''Soubor'';
             place' = get idx r ''Misto'';
             city' = get idx r ''Mesto'';
             host' = normBool (get idx r ''Hostovacka'');
             removed' = normBool (get idx r ''StazenoZR'');
             genres' = splitGenres (get idx r ''Zanry'');
             rating' = toNumberOrNull (get idx r ''Hodnoceni'');
             comment' = get idx r ''Komentar''
         in if date' = [] \<or> title' = [] then Inl (rowIndex + 2)
            else Inr \<lparr>date = date', title = title', theatre = theatre', place = place',
                   city = city', host = host', removed = removed', genres = genres',
                   rating = rating', comment = comment'\<rparr>))"

definition warning_of :: "nat + ShowRecord \<Rightarrow> nat option" where
  "warning_of x = (case x of Inl n \<Rightarrow> Some n | Inr s \<Rightarrow> None)"

definition record_of :: "nat + ShowRecord \<Rightarrow> ShowRecord option" where
  "record_of x = (case x of Inl n \<Rightarrow> None | Inr s \<Rightarrow> Some s)"

text \<open>
  \<^verbatim>\<open>rows.slice(1).map(...).filter(Boolean)\<close>: the callback runs on the data rows in
  order, with their positions; the warnings are printed in that order and the
  \<^verbatim>\<open>null\<close>s are filtered out.
\<close>

definition normalize :: "(string \<rightharpoonup> nat) \<Rightarrow> string list list \<Rightarrow> run_output" where
  "normalize idx ds =
     (let res = map (normRow idx) (enumerate 0 ds)
      in \<lparr>warned = List.map_filter warning_of res, written = List.map_filter record_of res\<rparr>)"

text \<open>\<^verbatim>\<open>main\<close> from the parsed rows on.\<close>

definition main_rows :: "string list list \<Rightarrow> error + run_output" where
  "main_rows rws =
     (case rws of
        h # d # ds \<Rightarrow>
          (let header = map trim h;
               idx = header_idx header;
               missing = filter (\<lambda>r. idx r = None) required
           in if missing \<noteq> [] then Inl (MissingColumns missing header)
              else Inr (normalize idx (d # ds)))
      | _ \<Rightarrow> Inl EmptyCsv)"

text \<open>\<^verbatim>\<open>main\<close>: the argument is the content of \<^verbatim>\<open>data/shows.csv\<close>, \<open>None\<close> when the file
  does not exist.\<close>

definition main :: "string option \<Rightarrow> error + run_output" where
  "main file =
     (case file of
        None \<Rightarrow> Inl MissingInput
      | Some csvText \<Rightarrow> main_rows (parseCsv csvText))"

text \<open>What the process leaves behind: its exit code and the records of the file written,
  if one is.\<close>

definition exit_code :: "error + run_output \<Rightarrow> nat" where
  "exit_code r = (case r of Inl e \<Rightarrow> 1 | Inr out \<Rightarrow> 0)"

definition file_written :: "error + run_output \<Rightarrow> ShowRecord list option" where
  "file_written r = (case r of Inl e \<Rightarrow> None | Inr out \<Rightarrow> Some (written out))"

section \<open>Notions of the specification\<close>

text \<open>
  The parser as a two-state machine over the remaining input, with the function that
  files a finished row as a parameter \<open>P\<close>. The components of the result are the rows,
  the open row, the open cell and the quoted-mode flag.
\<close>

fun scan :: "(string list list \<Rightarrow> string list \<Rightarrow> string list list) \<Rightarrow>
    string list list \<Rightarrow> string list \<Rightarrow> string \<Rightarrow> bool \<Rightarrow> string \<Rightarrow>
    string list list \<times> string list \<times> string \<times> bool" where
  "scan P rs r c q [] = (rs, r, c, q)"
| "scan P rs r c q (x # xs) =
     (if q then
        (if x = dquote then
           (case xs of
              [] \<Rightarrow> scan P rs r c False xs
            | y # ys \<Rightarrow> if y = dquote then scan P rs r (c @ [dquote]) True ys
                       else scan P rs r c False xs)
         else scan P rs r (c @ [x]) True xs)
      else if x = dquote then scan P rs r c True xs
      else if x = comma then scan P rs (r @ [c]) [] False xs
      else if x = newline then scan P (P rs (r @ [c])) [] [] False xs
      else if x = creturn then scan P rs r c False xs
      else scan P rs r (c @ [x]) False xs)"

definition of_scan :: "nat \<Rightarrow> string list list \<times> string list \<times> string \<times> bool \<Rightarrow> pstate" where
  "of_scan n p = (case p of (rs, r, c, q) \<Rightarrow> \<lparr>rows = rs, row = r, cur = c, i = n, inQuotes = q\<rparr>)"

text \<open>Every row the parser finalizes, at a newline outside quotes or at the end of the
  input, whether it is kept or not.\<close>

definition finalized_rows :: "string \<Rightarrow> string list list" where
  "finalized_rows t =
     (case scan (\<lambda>rs r. rs @ [r]) [] [] [] False t of (rs, r, c, q) \<Rightarrow> rs @ [r @ [c]])"

text \<open>The content of a quoted field as it is written in the file: every quote doubled.\<close>

definition esc :: "string \<Rightarrow> string" where
  "esc s = concat (map (\<lambda>c. if c = dquote then [dquote, dquote] else [c]) s)"

text \<open>Trimming on the left and on the right.\<close>

definition ltrim :: "string \<Rightarrow> string" where
  "ltrim s = dropWhile is_ws s"

definition rtrim :: "string \<Rightarrow> string" where
  "rtrim s = rev (dropWhile is_ws (rev s))"

text \<open>The trimmed, non-empty pieces of a string between its delimiters, in order.\<close>

definition tokens :: "string \<Rightarrow> string list" where
  "tokens s = filter (\<lambda>p. p \<noteq> []) (map trim (split_on is_delim s))"

text \<open>The quoted-mode flag in a result of the two-state machine.\<close>

definition ends_quoted :: "string list list \<times> string list \<times> string \<times> bool \<Rightarrow> bool" where
  "ends_quoted p = snd (snd (snd p))"

text \<open>A text of commas and white space only, and a line of them (no newline).\<close>

definition blank_text :: "string \<Rightarrow> string" where
  "blank_text s = filter (\<lambda>c. c = comma \<or> is_ws c) s"

definition blank_line :: "string \<Rightarrow> string" where
  "blank_line s = filter (\<lambda>c. c \<noteq> newline) (blank_text s)"

text \<open>A data row is kept when its trimmed date and title cells are both non-empty.\<close>

definition kept :: "(string \<rightharpoonup> nat) \<Rightarrow> string list \<Rightarrow> bool" where
  "kept idx r = (get idx r ''Datum'' \<noteq> [] \<and> get idx r ''Nazev'' \<noteq> [])"

text \<open>The record built from a data row: one field per required column.\<close>

definition record_for :: "(string \<rightharpoonup> nat) \<Rightarrow> string list \<Rightarrow> ShowRecord" where
  "record_for idx r =
     \<lparr>date = get idx r ''Datum'', title = get idx r ''Nazev'', theatre = get idx r ''Soubor'',
      place = get idx r ''Misto'', city = get idx r ''Mesto'',
      host = normBool (get idx r ''Hostovacka''), removed = normBool (get idx r ''StazenoZR''),
      genres = splitGenres (get idx r ''Zanry''), rating = toNumberOrNull (get idx r ''Hodnoceni''),
      comment = get idx r ''Komentar''\<rparr>"

text \<open>The number of a string when it is finite: absent for a string that is empty after
  trimming, for a string that is not a numeric literal and for an infinite value.\<close>

definition finite_number :: "string \<Rightarrow> number option" where
  "finite_number s =
     (if trim s = [] then None
      else (let n = Number s in if isFinite n then Some n else None))"

text \<open>
  The numeric coercion in the words of the specification: strip a trailing percent sign if
  present, trim, the empty string is absent, otherwise parse.
\<close>

definition strip_trailing_percent :: "string \<Rightarrow> string" where
  "strip_trailing_percent s = (if s \<noteq> [] \<and> last s = CHR ''%'' then butlast s else s)"

definition toNumberOrNull_stated :: "string \<Rightarrow> number option" where
  "toNumberOrNull_stated v =
     (let t = trim (strip_trailing_percent v)
      in if t = [] then None
         else (let n = Number t in if isFinite n then Some n else None))"

section \<open>The scan loop and the two-state machine\<close>

lemma loop_scan:
  "i st \<le> length t \<Longrightarrow>
   loop t st =
     of_scan (length t) (scan push_row (rows st) (row st) (cur st) (inQuotes st) (drop (i st) t))"
proof (induction t st rule: loop.induct)
  case (1 t st)
  show ?case
  proof (cases "i st < length t")
    case False
    with "1.prems" have "i st = length t" by simp
    then show ?thesis by (simp add: loop.simps of_scan_def)
  next
    case True
    then have d: "drop (i st) t = t ! i st # drop (Suc (i st)) t"
      by (simp add: Cons_nth_drop_Suc)
    show ?thesis
    proof (cases "Suc (i st) < length t")
      case False
      with True have e: "drop (Suc (i st)) t = []" by simp
      have le: "i (step t st) \<le> length t"
        using True False by (simp add: step_def Let_def)
      show ?thesis
        using "1.IH"[OF True le] True False
        by (subst loop.simps) (simp add: d e step_def Let_def)
    next
      case S: True
      then have d2: "drop (Suc (i st)) t = t ! Suc (i st) # drop (Suc (Suc (i st))) t"
        by (simp add: Cons_nth_drop_Suc)
      have le: "i (step t st) \<le> length t"
        using True S by (simp add: step_def Let_def)
      show ?thesis
        using "1.IH"[OF True le] True S
        by (subst loop.simps) (simp add: d d2 step_def Let_def)
    qed
  qed
qed

lemma parseCsv_scan:
  "parseCsv t = (case scan push_row [] [] [] False t of (rs, r, c, q) \<Rightarrow> push_row rs (r @ [c]))"
  by (simp add: parseCsv_def loop_scan init_def finish_def of_scan_def split: prod.splits)

lemma special_chars:
  "dquote \<noteq> comma" "dquote \<noteq> newline" "dquote \<noteq> creturn"
  "comma \<noteq> newline" "comma \<noteq> creturn" "newline \<noteq> creturn"
  by (simp_all add: dquote_def comma_def newline_def creturn_def)

lemma scan_quoted_escape:
  "scan P rs r c True (dquote # dquote # ys) = scan P rs r (c @ [dquote]) True ys"
  by simp

lemma scan_quoted_close:
  "\<forall>ys. xs \<noteq> dquote # ys \<Longrightarrow> scan P rs r c True (dquote # xs) = scan P rs r c False xs"
  by (cases xs) simp_all

lemma scan_quoted_char:
  "x \<noteq> dquote \<Longrightarrow> scan P rs r c True (x # xs) = scan P rs r (c @ [x]) True xs"
  by simp

lemma scan_open:
  "scan P rs r c False (dquote # xs) = scan P rs r c True xs"
  by simp

lemma scan_comma:
  "scan P rs r c False (comma # xs) = scan P rs (r @ [c]) [] False xs"
  using special_chars by simp

lemma scan_newline:
  "scan P rs r c False (newline # xs) = scan P (P rs (r @ [c])) [] [] False xs"
  using special_chars by simp

lemma scan_creturn:
  "scan P rs r c False (creturn # xs) = scan P rs r c False xs"
  using special_chars by simp

lemma scan_char:
  "x \<noteq> dquote \<Longrightarrow> x \<noteq> comma \<Longrightarrow> x \<noteq> newline \<Longrightarrow> x \<noteq> creturn \<Longrightarrow>
   scan P rs r c False (x # xs) = scan P rs r (c @ [x]) False xs"
  by simp

lemmas scan_rules = scan_quoted_escape scan_quoted_close scan_quoted_char scan_open scan_comma
  scan_newline scan_creturn scan_char

declare scan.simps(2) [simp del]

lemma esc_Nil: "esc [] = []"
  by (simp add: esc_def)

lemma esc_Cons:
  "esc (x # s) = (if x = dquote then [dquote, dquote] else [x]) @ esc s"
  by (simp add: esc_def)

lemma scan_esc:
  "scan P rs r c True (esc s) = (rs, r, c @ s, True)"
  by (induction s arbitrary: c) (simp_all add: esc_Nil esc_Cons scan_quoted_escape scan_quoted_char)

lemma scan_esc_close:
  assumes "\<forall>ys. rest \<noteq> dquote # ys"
  shows "scan P rs r c True (esc s @ dquote # rest) = scan P rs r (c @ s) False rest"
  by (induction s arbitrary: c)
    (simp_all add: esc_Nil esc_Cons scan_quoted_escape scan_quoted_char scan_quoted_close[OF assms])

lemma scan_append:
  assumes "\<forall>ys. b \<noteq> dquote # ys"
  shows "scan P rs r c q (a @ b) =
    (case scan P rs r c q a of (rs', r', c', q') \<Rightarrow> scan P rs' r' c' q' b)"
proof (induction "length a" arbitrary: a rs r c q rule: less_induct)
  case less
  show ?case
  proof (cases a)
    case Nil
    then show ?thesis by simp
  next
    case (Cons x xs)
    have IH: "\<And>rs r c q. scan P rs r c q (xs @ b) =
      (case scan P rs r c q xs of (rs', r', c', q') \<Rightarrow> scan P rs' r' c' q' b)"
      using less[of xs] Cons by simp
    show ?thesis
    proof (cases q)
      case False
      then show ?thesis
        unfolding Cons
        by (cases "x = dquote"; cases "x = comma"; cases "x = newline"; cases "x = creturn")
           (simp_all add: scan_rules IH)
    next
      case True
      show ?thesis
      proof (cases "x = dquote")
        case False
        then show ?thesis unfolding Cons using True by (simp add: scan_rules IH)
      next
        case x: True
        show ?thesis
        proof (cases xs)
          case Nil
          then show ?thesis unfolding Cons using True x assms
            by (simp add: scan_quoted_close)
        next
          case (Cons y ys)
          show ?thesis
          proof (cases "y = dquote")
            case True
            have "scan P rs r (c @ [dquote]) True (ys @ b) =
              (case scan P rs r (c @ [dquote]) True ys of (rs', r', c', q') \<Rightarrow> scan P rs' r' c' q' b)"
              using less[of ys] \<open>a = x # xs\<close> Cons by simp
            then show ?thesis
              unfolding \<open>a = x # xs\<close> Cons using \<open>q\<close> x True by (simp add: scan_quoted_escape)
          next
            case False
            then have "\<forall>zs. xs \<noteq> dquote # zs" "\<forall>zs. xs @ b \<noteq> dquote # zs"
              using Cons by simp_all
            then show ?thesis
              unfolding \<open>a = x # xs\<close> using \<open>q\<close> x by (simp add: scan_quoted_close IH)
          qed
        qed
      qed
    qed
  qed
qed

lemma scan_filter:
  "scan push_row (filter some_nonblank rs) r c q t =
     (case scan (\<lambda>rs r. rs @ [r]) rs r c q t of
        (rs', r', c', q') \<Rightarrow> (filter some_nonblank rs', r', c', q'))"
proof (induction "length t" arbitrary: t rs r c q rule: less_induct)
  case less
  have p: "\<And>rs r. push_row (filter some_nonblank rs) r = filter some_nonblank (rs @ [r])"
    by (simp add: push_row_def)
  show ?case
  proof (cases t)
    case Nil
    then show ?thesis by simp
  next
    case (Cons x xs)
    have IH: "\<And>rs r c q. scan push_row (filter some_nonblank rs) r c q xs =
     (case scan (\<lambda>rs r. rs @ [r]) rs r c q xs of
        (rs', r', c', q') \<Rightarrow> (filter some_nonblank rs', r', c', q'))"
      using less[of xs] Cons by simp
    show ?thesis
    proof (cases q)
      case False
      show ?thesis
      proof (cases "x = newline")
        case True
        have "scan push_row (filter some_nonblank rs) r c False (newline # xs) =
          scan push_row (filter some_nonblank (rs @ [r @ [c]])) [] [] False xs"
          by (simp only: scan_newline p)
        also have "\<dots> = (case scan (\<lambda>rs r. rs @ [r]) (rs @ [r @ [c]]) [] [] False xs of
            (rs', r', c', q') \<Rightarrow> (filter some_nonblank rs', r', c', q'))"
          by (rule IH)
        finally show ?thesis
          unfolding Cons using True \<open>\<not> q\<close> by (simp only: scan_newline)
      next
        case nl: False
        with False show ?thesis
          unfolding Cons
          by (cases "x = dquote"; cases "x = comma"; cases "x = creturn")
             (simp_all add: scan_rules IH)
      qed
    next
      case True
      show ?thesis
      proof (cases "x = dquote")
        case False
        then show ?thesis unfolding Cons using True by (simp add: scan_rules IH)
      next
        case x: True
        show ?thesis
        proof (cases xs)
          case Nil
          then show ?thesis unfolding Cons using True x
            by (simp add: scan_quoted_close)
        next
          case (Cons y ys)
          show ?thesis
          proof (cases "y = dquote")
            case True
            have "scan push_row (filter some_nonblank rs) r (c @ [dquote]) True ys =
              (case scan (\<lambda>rs r. rs @ [r]) rs r (c @ [dquote]) True ys of
                (rs', r', c', q') \<Rightarrow> (filter some_nonblank rs', r', c', q'))"
              using less[of ys] \<open>t = x # xs\<close> Cons by simp
            then show ?thesis
              unfolding \<open>t = x # xs\<close> Cons using \<open>q\<close> x True by (simp add: scan_quoted_escape)
          next
            case False
            then have "\<forall>zs. xs \<noteq> dquote # zs"
              using Cons by simp
            then show ?thesis
              unfolding \<open>t = x # xs\<close> using \<open>q\<close> x by (simp add: scan_quoted_close IH)
          qed
        qed
      qed
    qed
  qed
qed

lemma dropWhile_all: "list_all P s \<Longrightarrow> dropWhile P s = []"
  by (induction s) auto

lemma trim_Nil_iff: "trim s = [] \<longleftrightarrow> list_all is_ws s"
proof
  assume "trim s = []"
  then have a: "\<forall>x\<in>set (dropWhile is_ws s). is_ws x"
    by (simp add: trim_def dropWhile_eq_Nil_conv)
  show "list_all is_ws s"
  proof (cases "dropWhile is_ws s")
    case Nil
    then show ?thesis by (simp add: dropWhile_eq_Nil_conv list_all_iff)
  next
    case (Cons y ys)
    then have "\<not> is_ws y" using hd_dropWhile[of is_ws s] by simp
    with a Cons show ?thesis by simp
  qed
next
  assume "list_all is_ws s"
  then show "trim s = []" by (simp add: trim_def dropWhile_all)
qed

lemma some_nonblank_snoc:
  "some_nonblank (r @ [c]) \<longleftrightarrow> some_nonblank r \<or> \<not> list_all is_ws c"
  by (auto simp: some_nonblank_def trim_Nil_iff list_ex_iff)

lemma scan_blank:
  "list_all (\<lambda>x. x = comma \<or> is_ws x) xs \<Longrightarrow> \<not> some_nonblank (r @ [c]) \<Longrightarrow>
   \<exists>r' c'. scan push_row rs r c False xs = (rs, r', c', False) \<and> \<not> some_nonblank (r' @ [c'])"
proof (induction xs arbitrary: r c)
  case Nil
  then show ?case by simp
next
  case (Cons x xs)
  from Cons.prems have xs: "list_all (\<lambda>x. x = comma \<or> is_ws x) xs" and x: "x = comma \<or> is_ws x"
    by simp_all
  have nq: "x \<noteq> dquote" using x by (auto simp: comma_def is_ws_def dquote_def)
  consider "x = comma" | "x = newline" | "x = creturn"
    | "x \<noteq> comma" "x \<noteq> newline" "x \<noteq> creturn" "is_ws x"
    using x by blast
  then show ?case
  proof cases
    case 1
    have "\<not> some_nonblank ((r @ [c]) @ [[]])"
      by (subst some_nonblank_snoc) (use Cons.prems(2) in simp)
    from Cons.IH[OF xs this] show ?thesis unfolding 1 by (simp add: scan_comma)
  next
    case 2
    have "\<not> some_nonblank ([] @ [[]])" by (simp add: some_nonblank_def trim_def)
    from Cons.IH[OF xs this] show ?thesis
      unfolding 2 using Cons.prems(2) by (simp add: scan_newline push_row_def)
  next
    case 3
    from Cons.IH[OF xs Cons.prems(2)] show ?thesis unfolding 3 by (simp add: scan_creturn)
  next
    case 4
    have "\<not> some_nonblank (r @ [c @ [x]])"
      using Cons.prems(2) 4(4) by (simp add: some_nonblank_snoc)
    from Cons.IH[OF xs this] show ?thesis using 4 nq by (simp add: scan_char)
  qed
qed

lemma blank_text_all: "list_all (\<lambda>x. x = comma \<or> is_ws x) (blank_text s)"
  by (simp add: blank_text_def list_all_iff)

lemma blank_line_all: "list_all (\<lambda>x. x = comma \<or> is_ws x) (blank_line s)"
  by (simp add: blank_line_def blank_text_def list_all_iff)

lemma blank_line_no_quote: "\<forall>ys. blank_line s @ newline # rest \<noteq> dquote # ys"
proof (cases "blank_line s")
  case Nil
  then show ?thesis using special_chars by simp
next
  case (Cons y ys)
  then have "y \<in> set (blank_line s)" by simp
  then have "y = comma \<or> is_ws y" by (simp add: blank_line_def blank_text_def)
  then have "y \<noteq> dquote" by (auto simp: comma_def is_ws_def dquote_def)
  with Cons show ?thesis by simp
qed

lemma scan_blank_line:
  "scan push_row rs [] [] False (blank_line s @ newline # rest) = scan push_row rs [] [] False rest"
proof -
  have nb: "\<not> some_nonblank ([] @ [[]])" by (simp add: some_nonblank_def trim_def)
  from scan_blank[OF blank_line_all nb, where rs=rs and s1=s] obtain r' c' where
    s: "scan push_row rs [] [] False (blank_line s) = (rs, r', c', False)" and b: "\<not> some_nonblank (r' @ [c'])"
    by blast
  have q: "\<forall>ys. newline # rest \<noteq> dquote # ys" using special_chars by simp
  show ?thesis
    by (simp add: scan_append[OF q] s scan_newline push_row_def b)
qed

lemma scan_blank_end:
  "(case scan push_row rs [] [] False (blank_line s) of (rs', r, c, q) \<Rightarrow> push_row rs' (r @ [c])) = rs"
proof -
  have nb: "\<not> some_nonblank ([] @ [[]])" by (simp add: some_nonblank_def trim_def)
  from scan_blank[OF blank_line_all nb, where rs=rs and s1=s] obtain r' c' where
    s: "scan push_row rs [] [] False (blank_line s) = (rs, r', c', False)" and b: "\<not> some_nonblank (r' @ [c'])"
    by blast
  show ?thesis by (simp add: s push_row_def b)
qed

lemma inQuotes_loop:
  "inQuotes (loop t init) = snd (snd (snd (scan push_row [] [] [] False t)))"
  by (simp add: loop_scan init_def of_scan_def split: prod.splits)

lemma scan_single:
  "z \<noteq> dquote \<Longrightarrow>
   scan P rs r c q (z # b) = (case scan P rs r c q [z] of (rs', r', c', q') \<Rightarrow> scan P rs' r' c' q' b)"
  by (cases q; cases "z = comma"; cases "z = newline"; cases "z = creturn")
     (simp_all add: scan_rules)

lemma scan_append_no_quote:
  assumes "a = [] \<or> last a \<noteq> dquote"
  shows "scan P rs r c q (a @ b) =
    (case scan P rs r c q a of (rs', r', c', q') \<Rightarrow> scan P rs' r' c' q' b)"
proof (cases a rule: rev_cases)
  case Nil
  then show ?thesis by simp
next
  case (snoc a' z)
  with assms have z: "z \<noteq> dquote" by simp
  then have q: "\<And>zs. \<forall>ys. z # zs \<noteq> dquote # ys" by simp
  show ?thesis
    unfolding snoc
    by (simp add: scan_append[OF q] scan_single[OF z, of _ _ _ _ _ b] split: prod.splits)
qed

lemma loop_init_scan:
  "loop t init = of_scan (length t) (scan push_row [] [] [] False t)"
  by (simp add: loop_scan init_def)

lemma scan_ends_quoted:
  "ends_quoted (scan P rs r c q t) \<Longrightarrow>
   (q \<and> (\<exists>s. t = esc s)) \<or>
   (\<exists>pre s. t = pre @ dquote # esc s \<and> (pre = [] \<or> last pre \<noteq> dquote) \<and>
      \<not> ends_quoted (scan P rs r c q pre))"
proof (induction "length t" arbitrary: t rs r c q rule: less_induct)
  case less
  let ?G = "\<lambda>rs r c q t. (q \<and> (\<exists>s. t = esc s)) \<or>
   (\<exists>pre s. t = pre @ dquote # esc s \<and> (pre = [] \<or> last pre \<noteq> dquote) \<and>
      \<not> ends_quoted (scan P rs r c q pre))"
  show ?case
  proof (cases t)
    case Nil
    with less.prems have q by (simp add: ends_quoted_def)
    moreover have "t = esc []" using Nil by (simp add: esc_Nil)
    ultimately show ?thesis by blast
  next
    case (Cons x xs)
    have IH: "\<And>rs r c q. ends_quoted (scan P rs r c q xs) \<Longrightarrow> ?G rs r c q xs"
      using less.hyps[of xs] Cons by simp
    \<comment> \<open>a step that consumes one character, not a quote, and keeps the mode\<close>
    have keep: "?G rs r c q t"
      if st: "scan P rs r c q (x # xs) = scan P rs' r' c' q xs"
        "\<And>zs. scan P rs r c q (x # zs) = scan P rs' r' c' q zs" and nq: "x \<noteq> dquote"
      for rs' r' c'
    proof -
      from less.prems st(1) Cons have "ends_quoted (scan P rs' r' c' q xs)" by simp
      from IH[OF this] show ?thesis
      proof
        assume "q \<and> (\<exists>s. xs = esc s)"
        then obtain s where q and "xs = esc s" by blast
        then have "t = esc (x # s)" using Cons nq by (simp add: esc_Cons)
        with \<open>q\<close> show ?thesis by blast
      next
        assume "\<exists>pre s. xs = pre @ dquote # esc s \<and> (pre = [] \<or> last pre \<noteq> dquote) \<and>
          \<not> ends_quoted (scan P rs' r' c' q pre)"
        then obtain pre s where p: "xs = pre @ dquote # esc s" "pre = [] \<or> last pre \<noteq> dquote"
          "\<not> ends_quoted (scan P rs' r' c' q pre)" by blast
        have "t = (x # pre) @ dquote # esc s" using Cons p(1) by simp
        moreover have "x # pre = [] \<or> last (x # pre) \<noteq> dquote" using p(2) nq by auto
        moreover have "\<not> ends_quoted (scan P rs r c q (x # pre))" using p(3) st(2) by simp
        ultimately show ?thesis by blast
      qed
    qed
    show ?thesis
    proof (cases q)
      case False
      show ?thesis
      proof (cases "x = dquote")
        case True
        with less.prems Cons False have "ends_quoted (scan P rs r c True xs)"
          by (simp add: scan_open)
        from IH[OF this] show ?thesis
        proof
          assume "True \<and> (\<exists>s. xs = esc s)"
          then obtain s where "xs = esc s" by blast
          then have "t = [] @ dquote # esc s" using Cons True by simp
          moreover have "\<not> ends_quoted (scan P rs r c q [])" using False by (simp add: ends_quoted_def)
          ultimately show ?thesis by blast
        next
          assume "\<exists>pre s. xs = pre @ dquote # esc s \<and> (pre = [] \<or> last pre \<noteq> dquote) \<and>
            \<not> ends_quoted (scan P rs r c True pre)"
          then obtain pre s where p: "xs = pre @ dquote # esc s" "pre = [] \<or> last pre \<noteq> dquote"
            "\<not> ends_quoted (scan P rs r c True pre)" by blast
          from p(3) have ne: "pre \<noteq> []" by (auto simp: ends_quoted_def)
          have "t = (x # pre) @ dquote # esc s" using Cons p(1) by simp
          moreover have "x # pre = [] \<or> last (x # pre) \<noteq> dquote" using p(2) ne by auto
          moreover have "\<not> ends_quoted (scan P rs r c q (x # pre))"
            using p(3) True False by (simp add: scan_open)
          ultimately show ?thesis by blast
        qed
      next
        case nq: False
        consider "x = comma" | "x = newline" | "x = creturn"
          | "x \<noteq> comma" "x \<noteq> newline" "x \<noteq> creturn" by blast
        then show ?thesis
        proof cases
          case 1
          show ?thesis using keep[of "rs" "r @ [c]" "[]"] nq False 1 by (simp add: scan_comma)
        next
          case 2
          show ?thesis using keep[of "P rs (r @ [c])" "[]" "[]"] nq False 2 by (simp add: scan_newline)
        next
          case 3
          show ?thesis using keep[of rs r c] nq False 3 by (simp add: scan_creturn)
        next
          case 4
          show ?thesis using keep[of rs r "c @ [x]"] nq False 4 by (simp add: scan_char)
        qed
      qed
    next
      case True
      show ?thesis
      proof (cases "x = dquote")
        case False
        show ?thesis using keep[of rs r "c @ [x]"] False True by (simp add: scan_quoted_char)
      next
        case x: True
        show ?thesis
        proof (cases "\<exists>ys. xs = dquote # ys")
          case True
          then obtain ys where ys: "xs = dquote # ys" by blast
          have "ends_quoted (scan P rs r (c @ [dquote]) True ys)"
            using less.prems Cons x ys \<open>q\<close> by (simp add: scan_quoted_escape)
          from less.hyps[OF _ this] Cons ys
          have "?G rs r (c @ [dquote]) True ys" by simp
          then show ?thesis
          proof
            assume "True \<and> (\<exists>s. ys = esc s)"
            then obtain s where "ys = esc s" by blast
            then have "t = esc (dquote # s)" using Cons x ys by (simp add: esc_Cons)
            with \<open>q\<close> show ?thesis by blast
          next
            assume "\<exists>pre s. ys = pre @ dquote # esc s \<and> (pre = [] \<or> last pre \<noteq> dquote) \<and>
              \<not> ends_quoted (scan P rs r (c @ [dquote]) True pre)"
            then obtain pre s where p: "ys = pre @ dquote # esc s" "pre = [] \<or> last pre \<noteq> dquote"
              "\<not> ends_quoted (scan P rs r (c @ [dquote]) True pre)" by blast
            from p(3) have ne: "pre \<noteq> []" by (auto simp: ends_quoted_def)
            have "t = (dquote # dquote # pre) @ dquote # esc s" using Cons x ys p(1) by simp
            moreover have "last (dquote # dquote # pre) \<noteq> dquote" using p(2) ne by auto
            moreover have "\<not> ends_quoted (scan P rs r c q (dquote # dquote # pre))"
              using p(3) \<open>q\<close> by (simp add: scan_quoted_escape)
            ultimately show ?thesis by blast
          qed
        next
          case False
          then have nx: "\<forall>ys. xs \<noteq> dquote # ys" by blast
          have "ends_quoted (scan P rs r c False xs)"
            using less.prems Cons x \<open>q\<close> by (simp add: scan_quoted_close[OF nx])
          from IH[OF this] obtain pre s where p: "xs = pre @ dquote # esc s"
            "pre = [] \<or> last pre \<noteq> dquote" "\<not> ends_quoted (scan P rs r c False pre)" by blast
          from p(1) nx have ne: "pre \<noteq> []" by auto
          then have np: "\<forall>ys. pre \<noteq> dquote # ys" using p(1) nx by (cases pre) auto
          have "t = (dquote # pre) @ dquote # esc s" using Cons x p(1) by simp
          moreover have "last (dquote # pre) \<noteq> dquote" using p(2) ne by auto
          moreover have "\<not> ends_quoted (scan P rs r c q (dquote # pre))"
            using p(3) \<open>q\<close> by (simp add: scan_quoted_close[OF np])
          ultimately show ?thesis by blast
        qed
      qed
    qed
  qed
qed

section \<open>Trimming\<close>

lemma trim_ltrim_rtrim: "trim s = rtrim (ltrim s)"
  by (simp add: trim_def ltrim_def rtrim_def)

lemma ltrim_simps [simp]:
  "ltrim [] = []"
  "is_ws x \<Longrightarrow> ltrim (x # s) = ltrim s"
  "\<not> is_ws x \<Longrightarrow> ltrim (x # s) = x # s"
  by (simp_all add: ltrim_def)

lemma rtrim_Nil [simp]: "rtrim [] = []"
  by (simp add: rtrim_def)

lemma rtrim_snoc [simp]:
  "is_ws x \<Longrightarrow> rtrim (s @ [x]) = rtrim s"
  "\<not> is_ws x \<Longrightarrow> rtrim (s @ [x]) = s @ [x]"
  by (simp_all add: rtrim_def)

lemma ltrim_Nil_iff: "ltrim s = [] \<longleftrightarrow> list_all is_ws s"
  by (simp add: ltrim_def dropWhile_eq_Nil_conv list_all_iff)

lemma rtrim_Nil_iff: "rtrim s = [] \<longleftrightarrow> list_all is_ws s"
  by (simp add: rtrim_def dropWhile_eq_Nil_conv list_all_iff)

lemma ltrim_append_char: "\<not> is_ws x \<Longrightarrow> ltrim (a @ x # b) = ltrim a @ x # b"
  by (simp add: ltrim_def dropWhile_append3)

lemma rtrim_append_char: "\<not> is_ws x \<Longrightarrow> rtrim (a @ x # b) = a @ x # rtrim b"
  by (simp add: rtrim_def dropWhile_append3)

lemma rtrim_Cons: "\<not> is_ws x \<Longrightarrow> rtrim (x # b) = x # rtrim b"
  using rtrim_append_char[of x "[]" b] by simp

lemma trim_append_char: "\<not> is_ws x \<Longrightarrow> trim (a @ x # b) = ltrim a @ x # rtrim b"
  by (simp add: trim_ltrim_rtrim ltrim_append_char rtrim_append_char)

lemma ltrim_ws_append: "list_all is_ws w \<Longrightarrow> ltrim (w @ s) = ltrim s"
  by (induction w) simp_all

lemma rtrim_append_ws: "list_all is_ws w \<Longrightarrow> rtrim (s @ w) = rtrim s"
  using ltrim_ws_append[of "rev w" "rev s"] by (simp add: rtrim_def ltrim_def)

lemma ltrim_ltrim_append: "ltrim (ltrim a @ b) = ltrim (a @ b)"
  by (induction a) (simp_all, metis append_Cons ltrim_simps(2,3))

lemma rtrim_append_rtrim: "rtrim (a @ rtrim b) = rtrim (a @ b)"
  using ltrim_ltrim_append[of "rev b" "rev a"] by (simp add: rtrim_def ltrim_def)

lemma ltrim_rtrim_commute: "ltrim (rtrim s) = rtrim (ltrim s)"
proof (induction s)
  case Nil
  then show ?case by simp
next
  case (Cons x s)
  show ?case
  proof (cases "is_ws x")
    case False
    then show ?thesis by (simp add: rtrim_Cons)
  next
    case True
    show ?thesis
    proof (cases "list_all is_ws s")
      case all: True
      then have "rtrim (x # s) = []" using True by (simp add: rtrim_Nil_iff)
      moreover have "ltrim (x # s) = []" using True all by (simp add: ltrim_Nil_iff)
      ultimately show ?thesis by simp
    next
      case False
      then obtain y where y: "y \<in> set s" "\<not> is_ws y" by (auto simp: list_all_iff)
      then obtain s1 s2 where s: "s = s1 @ y # s2" by (meson split_list)
      have "rtrim (x # s) = x # rtrim s"
        unfolding s using rtrim_append_char[OF y(2), of "x # s1" s2] rtrim_append_char[OF y(2), of s1 s2]
        by simp
      with True Cons show ?thesis by simp
    qed
  qed
qed

lemma trim_rtrim_ltrim: "trim s = ltrim (rtrim s)"
  by (simp add: trim_ltrim_rtrim ltrim_rtrim_commute)

lemma ltrim_idem [simp]: "ltrim (ltrim s) = ltrim s"
  by (simp add: ltrim_def)

lemma rtrim_idem [simp]: "rtrim (rtrim s) = rtrim s"
  by (simp add: rtrim_def)

lemma trim_idem: "trim (trim s) = trim s"
  by (simp add: trim_ltrim_rtrim ltrim_rtrim_commute)

lemma trim_ltrim: "trim (ltrim s) = trim s"
  by (simp add: trim_ltrim_rtrim)

lemma trim_rtrim: "trim (rtrim s) = trim s"
  by (simp add: trim_rtrim_ltrim)

lemma trim_ltrim_rtrim_append: "trim (ltrim a @ rtrim b) = trim (a @ b)"
proof -
  have "trim (ltrim a @ rtrim b) = ltrim (rtrim (ltrim a @ rtrim b))"
    by (simp add: trim_rtrim_ltrim)
  also have "\<dots> = ltrim (rtrim (ltrim a @ b))"
    by (simp add: rtrim_append_rtrim)
  also have "\<dots> = rtrim (ltrim (ltrim a @ b))"
    by (simp add: ltrim_rtrim_commute)
  also have "\<dots> = rtrim (ltrim (a @ b))"
    by (simp add: ltrim_ltrim_append)
  finally show ?thesis by (simp add: trim_ltrim_rtrim)
qed

lemma ltrim_rtrim_append_Nil_iff: "ltrim a @ rtrim b = [] \<longleftrightarrow> trim (a @ b) = []"
  by (simp add: ltrim_Nil_iff rtrim_Nil_iff trim_Nil_iff)

section \<open>Splitting at delimiters\<close>

lemma split_on_nonempty: "split_on d s \<noteq> []"
  by (induction s) (simp_all split: list.splits)

lemma split_on_Cons_other:
  "\<not> d x \<Longrightarrow> split_on d (x # s) = (x # hd (split_on d s)) # tl (split_on d s)"
  using split_on_nonempty[of d s] by (simp split: list.splits)

lemma split_on_append:
  "d x \<Longrightarrow> split_on d (p @ x # q) = split_on d p @ split_on d q"
proof (induction p)
  case Nil
  then show ?case by simp
next
  case (Cons y p)
  then show ?case
    using split_on_nonempty[of d p] by (cases "split_on d p") (simp_all split: list.splits)
qed

lemma split_on_no_delim: "list_all (\<lambda>c. \<not> d c) s \<Longrightarrow> split_on d s = [s]"
  by (induction s) simp_all

lemma split_on_snoc:
  "\<not> d w \<Longrightarrow> split_on d (s @ [w]) = butlast (split_on d s) @ [last (split_on d s) @ [w]]"
proof (induction s)
  case Nil
  then show ?case by simp
next
  case (Cons y s)
  obtain h t where ht: "split_on d s = h # t"
    using split_on_nonempty[of d s] by (cases "split_on d s") auto
  show ?case
  proof (cases "d y")
    case True
    with Cons ht show ?thesis by simp
  next
    case False
    with Cons ht show ?thesis by (cases t) (simp_all split: list.splits)
  qed
qed

lemma ws_not_delim: "is_ws c \<Longrightarrow> \<not> is_delim c"
  by (auto simp: is_ws_def is_delim_def)

lemma trim_ws_Cons: "is_ws w \<Longrightarrow> trim (w # s) = trim s"
  by (simp add: trim_ltrim_rtrim)

lemma trim_snoc_ws: "is_ws w \<Longrightarrow> trim (s @ [w]) = trim s"
  by (simp add: trim_rtrim_ltrim)

lemma tokens_Nil: "tokens [] = []"
  by (simp add: tokens_def trim_def)

lemma tokens_ws_Cons: "is_ws w \<Longrightarrow> tokens (w # s) = tokens s"
  using split_on_nonempty[of is_delim s]
  by (cases "split_on is_delim s")
     (simp_all add: tokens_def split_on_Cons_other ws_not_delim trim_ws_Cons)

lemma tokens_snoc_ws: "is_ws w \<Longrightarrow> tokens (s @ [w]) = tokens s"
proof -
  assume w: "is_ws w"
  have ne: "split_on is_delim s \<noteq> []" by (rule split_on_nonempty)
  have "map trim (butlast (split_on is_delim s) @ [last (split_on is_delim s) @ [w]]) =
    map trim (butlast (split_on is_delim s) @ [last (split_on is_delim s)])"
    using w by (simp add: trim_snoc_ws)
  also have "\<dots> = map trim (split_on is_delim s)"
    using ne by simp
  finally show ?thesis
    using w by (simp add: tokens_def split_on_snoc ws_not_delim)
qed

lemma tokens_ltrim: "tokens (ltrim s) = tokens s"
  by (induction s) (simp_all, metis ltrim_simps(2,3) tokens_ws_Cons)

lemma tokens_rtrim: "tokens (rtrim s) = tokens s"
proof (induction s rule: rev_induct)
  case Nil
  then show ?case by simp
next
  case (snoc x s)
  then show ?case by (cases "is_ws x") (simp_all add: tokens_snoc_ws)
qed

lemma tokens_trim: "tokens (trim s) = tokens s"
  by (simp add: trim_ltrim_rtrim tokens_rtrim tokens_ltrim)

lemma splitGenres_tokens: "splitGenres v = map toLowerCase (tokens v)"
proof (cases "trim v = []")
  case True
  then have "tokens (trim v) = []" by (simp add: tokens_Nil)
  then have "tokens v = []" by (simp add: tokens_trim)
  with True show ?thesis by (simp add: splitGenres_def)
next
  case False
  have "splitGenres v = map toLowerCase (tokens (trim v))"
    using False by (simp add: splitGenres_def tokens_def)
  then show ?thesis by (simp add: tokens_trim)
qed

lemma tokens_append: "is_delim x \<Longrightarrow> tokens (a @ x # b) = tokens a @ tokens b"
  by (simp add: tokens_def split_on_append)

lemma tokens_single:
  "list_all (\<lambda>c. \<not> is_delim c) v \<Longrightarrow> tokens v = (if trim v = [] then [] else [trim v])"
  by (simp add: tokens_def split_on_no_delim)

section \<open>Case mapping and the boolean coercion\<close>

lemmas case_tables = upper_char_def lower_char_def lower_letters_def upper_letters_def

lemma is_ws_upper_char: "is_ws (upper_char c) = is_ws c"
  by (simp add: case_tables is_ws_def)

lemma is_ws_lower_char: "is_ws (lower_char c) = is_ws c"
  by (simp add: case_tables is_ws_def)

lemma upper_lower_char: "upper_char (lower_char c) = upper_char c"
  by (simp add: case_tables)

lemma upper_upper_char: "upper_char (upper_char c) = upper_char c"
  by (simp add: case_tables)

lemma dropWhile_map_ws:
  "(\<And>c. is_ws (f c) = is_ws c) \<Longrightarrow> dropWhile is_ws (map f s) = map f (dropWhile is_ws s)"
  by (induction s) simp_all

lemma trim_map:
  assumes "\<And>c. is_ws (f c) = is_ws c"
  shows "trim (map f s) = map f (trim s)"
  by (simp add: trim_def rev_map dropWhile_map_ws[OF assms])

lemma normBool_member:
  "normBool v \<longleftrightarrow> toUpperCase (trim v) \<in> set [''A'', ''Y'', ''YES'', ''TRUE'', ''1'']"
  by (simp add: normBool_def Let_def)

lemma normBool_lower: "normBool (toLowerCase v) = normBool v"
  by (simp add: normBool_def toUpperCase_def toLowerCase_def
      trim_map[of lower_char, OF is_ws_lower_char] comp_def upper_lower_char)

lemma normBool_upper: "normBool (toUpperCase v) = normBool v"
  by (simp add: normBool_def toUpperCase_def trim_map[of upper_char, OF is_ws_upper_char]
      comp_def upper_upper_char)

lemma normBool_trim: "normBool (trim v) = normBool v"
  by (simp add: normBool_def trim_idem)

section \<open>Header check and normalization\<close>

lemma normRow_cases:
  "normRow idx (k, r) = (if kept idx r then Inr (record_for idx r) else Inl (k + 2))"
  by (simp add: normRow_def kept_def record_for_def Let_def)

lemma dom_fromEntries_aux:
  "dom (foldl (\<lambda>m (k, v). m(k \<mapsto> v)) m es) = dom m \<union> fst ` set es"
  by (induction es arbitrary: m) (auto split: prod.splits)

lemma fromEntries_None_iff: "fromEntries es k = None \<longleftrightarrow> k \<notin> fst ` set es"
proof -
  have "fromEntries es k = None \<longleftrightarrow> k \<notin> dom (fromEntries es)"
    by (simp add: domIff)
  also have "dom (fromEntries es) = fst ` set es"
    using dom_fromEntries_aux[of Map.empty es] by (simp add: fromEntries_def)
  finally show ?thesis .
qed

lemma header_idx_None_iff: "header_idx header name = None \<longleftrightarrow> name \<notin> set header"
proof -
  have "fst \<circ> (\<lambda>(k, h). (h, k)) = (snd :: nat \<times> string \<Rightarrow> string)"
    by (simp add: fun_eq_iff)
  then have "map fst (map (\<lambda>(k, h). (h, k)) (enumerate 0 header)) = header"
    by simp
  then have "fst ` set (map (\<lambda>(k, h). (h, k)) (enumerate 0 header)) = set header"
    by (metis list.set_map)
  then show ?thesis
    by (simp only: header_idx_def fromEntries_None_iff)
qed

lemma missing_filter:
  "filter (\<lambda>r. header_idx header r = None) required = filter (\<lambda>r. r \<notin> set header) required"
  by (simp add: header_idx_None_iff)

lemma main_rows_missing:
  assumes "list_ex (\<lambda>r. r \<notin> set (map trim h)) required"
  shows "main_rows (h # d # ds) =
    Inl (MissingColumns (filter (\<lambda>r. r \<notin> set (map trim h)) required) (map trim h))"
proof -
  from assms have "filter (\<lambda>r. r \<notin> set (map trim h)) required \<noteq> []"
    by (simp add: filter_empty_conv list_ex_iff)
  then show ?thesis
    by (simp add: main_rows_def Let_def missing_filter del: set_map)
qed

lemma main_rows_short: "main_rows [] = Inl EmptyCsv" "main_rows [h] = Inl EmptyCsv"
  by (simp_all add: main_rows_def)

lemma main_rows_missing_exit:
  assumes "list_ex (\<lambda>r. r \<notin> set (map trim h)) required"
  shows "exit_code (main_rows (h # rest)) = 1 \<and> file_written (main_rows (h # rest)) = None"
proof (cases rest)
  case Nil
  then show ?thesis by (simp add: main_rows_short exit_code_def file_written_def)
next
  case (Cons d ds)
  then show ?thesis
    by (simp add: main_rows_missing[OF assms] exit_code_def file_written_def del: set_map)
qed

lemma main_rows_complete:
  assumes "list_all (\<lambda>r. r \<in> set (map trim h)) required"
  shows "main_rows (h # d # ds) = Inr (normalize (header_idx (map trim h)) (d # ds))"
proof -
  from assms have "filter (\<lambda>r. r \<notin> set (map trim h)) required = []"
    by (simp add: filter_empty_conv list_all_iff)
  then show ?thesis
    by (simp add: main_rows_def Let_def missing_filter del: set_map)
qed

lemma normalize_enumerate:
  "List.map_filter warning_of (map (normRow idx) (enumerate n ds)) =
     map (\<lambda>(k, r). k + 2) (filter (\<lambda>(k, r). \<not> kept idx r) (enumerate n ds)) \<and>
   List.map_filter record_of (map (normRow idx) (enumerate n ds)) =
     map (record_for idx) (filter (kept idx) ds)"
  by (induction ds arbitrary: n)
     (simp_all add: List.map_filter_simps normRow_cases warning_of_def record_of_def)

lemma normalize_warned:
  "warned (normalize idx ds) =
     map (\<lambda>(k, r). k + 2) (filter (\<lambda>(k, r). \<not> kept idx r) (enumerate 0 ds))"
  by (simp add: normalize_def Let_def normalize_enumerate)

lemma normalize_written:
  "written (normalize idx ds) = map (record_for idx) (filter (kept idx) ds)"
  by (simp add: normalize_def Let_def normalize_enumerate)

lemma written_nonempty:
  "list_all (\<lambda>s. date s \<noteq> [] \<and> title s \<noteq> []) (written (normalize idx ds))"
  by (simp add: normalize_written list_all_iff kept_def record_for_def)

section \<open>Numbers\<close>

lemma lower_char_range: "lower_char c = c \<or> lower_char c \<in> set lower_letters"
proof (cases "map_of (zip upper_letters lower_letters) c")
  case None
  then show ?thesis by (simp add: lower_char_def)
next
  case (Some l)
  then have "(c, l) \<in> set (zip upper_letters lower_letters)" by (rule map_of_SomeD)
  then have "l \<in> set lower_letters" by (rule set_zip_rightD)
  with Some show ?thesis by (simp add: lower_char_def)
qed

lemma digit_key:
  "map_of (zip ''0123456789abcdef'' [0, 1, 2, 3, 4, 5, 6, 7, 8, 9, 10, 11, 12, 13, 14, 15 :: nat]) k = Some d
   \<Longrightarrow> d < 10 \<Longrightarrow> k \<in> set ''0123456789''"
  by (simp split: if_splits)

lemma digit_not_letter: "k \<in> set ''0123456789'' \<Longrightarrow> k \<notin> set lower_letters"
  by (auto simp: lower_letters_def)

lemma digit_in_10_D: "digit_in 10 c \<Longrightarrow> c \<in> set ''0123456789''"
proof -
  assume "digit_in 10 c"
  then obtain d where d: "digit_of c = Some d" "d < 10"
    by (auto simp: digit_in_def split: option.splits)
  then have k: "lower_char c \<in> set ''0123456789''"
    unfolding digit_of_def by (rule digit_key)
  with digit_not_letter[OF k] lower_char_range[of c] show ?thesis by auto
qed

lemma digit_plain:
  assumes "digit_in 10 c"
  shows "\<not> is_ws c" "c \<noteq> CHR ''%''" "c \<noteq> CHR ''+''" "c \<noteq> CHR ''-''" "c \<noteq> CHR ''I''"
    "radix_of c = None"
  using digit_in_10_D[OF assms] by (auto simp: is_ws_def radix_of_def)

lemma dropWhile_none: "xs = [] \<or> \<not> P (hd xs) \<Longrightarrow> dropWhile P xs = xs"
  by (cases xs) auto

lemma trim_plain:
  assumes "list_all (\<lambda>c. \<not> is_ws c) s"
  shows "trim s = s"
proof -
  have "dropWhile is_ws s = s" using assms by (cases s) auto
  moreover have "dropWhile is_ws (rev s) = rev s"
    using assms by (intro dropWhile_none) (cases s rule: rev_cases, auto simp: list_all_iff)
  ultimately show ?thesis by (simp add: trim_def)
qed

lemma Number_digits:
  assumes "all_digits 10 ds"
  shows "Number ds = round_double (of_nat (digits_val 10 ds))"
proof -
  from assms have ne: "ds \<noteq> []" and all: "list_all (digit_in 10) ds"
    by (simp_all add: all_digits_def)
  have t: "trim ds = ds"
    using all by (intro trim_plain) (auto simp: list_all_iff digit_plain)
  obtain c r where ds: "ds = c # r" using ne by (cases ds) auto
  have c: "digit_in 10 c" using all ds by simp
  have nd: "non_decimal ds = None"
  proof (cases r)
    case Nil
    then show ?thesis by (simp add: non_decimal_def ds)
  next
    case (Cons p r')
    then have "digit_in 10 p" using all ds by simp
    then have "radix_of p = None" by (rule digit_plain)
    then show ?thesis by (simp add: non_decimal_def ds Cons)
  qed
  have inf: "ds \<noteq> ''Infinity''"
    using digit_plain(5)[OF c] ds by auto
  have tw: "takeWhile (digit_in 10) ds = ds" "dropWhile (digit_in 10) ds = []"
    using all by (simp_all add: list_all_iff)
  have "unsigned_decimal ds = Fin (of_nat (digits_val 10 ds))"
    using ne inf
    by (simp add: unsigned_decimal_def tw fraction_part_def exponent_part_def scale10_def
        digits_val_def)
  then have "str_decimal ds = Fin (of_nat (digits_val 10 ds))"
    using digit_plain(3,4)[OF c] by (simp add: str_decimal_def ds)
  then show ?thesis
    using ne by (simp add: Number_def t nd)
qed

lemma Number_trim_cong: "trim s = trim s' \<Longrightarrow> Number s = Number s'"
  by (simp add: Number_def)

lemma set_trim: "set (trim s) \<subseteq> set s"
proof -
  have "set (trim s) \<subseteq> set (dropWhile is_ws s)"
    unfolding trim_def using set_dropWhileD[of _ is_ws "rev (dropWhile is_ws s)"] by auto
  also have "\<dots> \<subseteq> set s" using set_dropWhileD[of _ is_ws s] by auto
  finally show ?thesis .
qed

lemma toNumberOrNull_no_percent:
  assumes "CHR ''%'' \<notin> set v"
  shows "toNumberOrNull v = finite_number v"
proof -
  from assms set_trim[of v] have "CHR ''%'' \<notin> set (trim v)" by auto
  then have r: "remove1 (CHR ''%'') (trim v) = trim v" by (rule remove1_idem)
  have "Number (trim v) = Number v" by (rule Number_trim_cong) (rule trim_idem)
  then show ?thesis
    by (simp add: toNumberOrNull_def finite_number_def r Let_def)
qed

lemma percent_not_ws: "\<not> is_ws (CHR ''%'')"
  by (simp add: is_ws_def)

lemma toNumberOrNull_percent:
  assumes "CHR ''%'' \<notin> set a"
  shows "toNumberOrNull (a @ CHR ''%'' # b) = finite_number (a @ b)"
proof -
  have t: "trim (a @ CHR ''%'' # b) = ltrim a @ CHR ''%'' # rtrim b"
    by (rule trim_append_char) (rule percent_not_ws)
  have "set (ltrim a) \<subseteq> set a"
    unfolding ltrim_def using set_dropWhileD[of _ is_ws a] by auto
  with assms have "CHR ''%'' \<notin> set (ltrim a)" by auto
  then have r: "remove1 (CHR ''%'') (ltrim a @ CHR ''%'' # rtrim b) = ltrim a @ rtrim b"
    by (simp add: remove1_append)
  have n: "Number (ltrim a @ rtrim b) = Number (a @ b)"
    by (rule Number_trim_cong) (rule trim_ltrim_rtrim_append)
  show ?thesis
    using ltrim_rtrim_append_Nil_iff[of a b]
    by (simp add: toNumberOrNull_def finite_number_def t r n Let_def)
qed

section \<open>Evaluation on concrete inputs\<close>

lemmas parse_eval = parseCsv_scan scan.simps(2) push_row_def some_nonblank_def trim_def is_ws_def
  dquote_def comma_def newline_def creturn_def

lemmas bool_eval = normBool_def toUpperCase_def upper_char_def lower_letters_def upper_letters_def
  trim_def is_ws_def Let_def

lemmas genres_eval = splitGenres_def toLowerCase_def lower_char_def lower_letters_def
  upper_letters_def is_delim_def trim_def is_ws_def Let_def

lemmas number_eval = toNumberOrNull_def Number_def isFinite_def round_double_def non_decimal_def
  radix_of_def str_decimal_def unsigned_decimal_def fraction_part_def exponent_part_def
  signed_integer_def unsigned_integer_def all_digits_def digits_val_def digit_in_def digit_of_def
  scale10_def negate_def lower_char_def lower_letters_def upper_letters_def trim_def is_ws_def
  Let_def

lemma header_example:
  "map (header_idx [''Datum'', ''Nazev'', ''Soubor'', ''Misto'', ''Mesto'', ''Hostovacka'',
      ''StazenoZR'', ''Zanry'', ''Hodnoceni'', ''Komentar'']) required =
   map Some [0, 1, 2, 3, 4, 5, 6, 7, 8, 9]"
  by (simp add: header_idx_def fromEntries_def required_def enumerate_eq_zip upt_rec)

section \<open>Termination of the parser\<close>

lemma step_index:
  "i (step t st) =
     (if inQuotes st \<and> t ! i st = dquote \<and> i st + 1 < length t \<and> t ! (i st + 1) = dquote
      then i st + 2 else i st + 1)"
  by (simp add: step_def Let_def)

lemma loop_while:
  "while_option (\<lambda>s. i s < length t) (step t) st = Some (loop t st)"
proof (induction t st rule: loop.induct)
  case (1 t st)
  show ?case
  proof (cases "i st < length t")
    case True
    with "1.IH" show ?thesis
      by (subst while_option_unfold, subst loop.simps) simp
  next
    case False
    then show ?thesis
      by (subst while_option_unfold, subst loop.simps) simp
  qed
qed

lemma loop_iterations:
  "\<exists>n. n \<le> length t - i st \<and> loop t st = (step t ^^ n) st \<and> \<not> i (loop t st) < length t"
proof (induction t st rule: loop.induct)
  case (1 t st)
  show ?case
  proof (cases "i st < length t")
    case True
    from "1.IH"[OF True] obtain n where n: "n \<le> length t - i (step t st)"
      "loop t (step t st) = (step t ^^ n) (step t st)" "\<not> i (loop t (step t st)) < length t"
      by blast
    have lt: "i st < i (step t st)" by (simp add: step_index)
    have eq: "loop t st = loop t (step t st)" using True by (subst loop.simps) simp
    have "Suc n \<le> length t - i st" using n(1) lt True by linarith
    moreover have "loop t st = (step t ^^ Suc n) st"
      using n(2) eq by (simp add: funpow_swap1)
    moreover have "\<not> i (loop t st) < length t" using n(3) eq by simp
    ultimately show ?thesis by blast
  next
    case False
    then have "loop t st = st" by (subst loop.simps) simp
    with False show ?thesis by (intro exI[of _ 0]) simp
  qed
qed

text \<open>
  Claim C10. The parser is total: its scan loop terminates on every input string. Each
  run of the loop body moves the scan index forward by one, and by two exactly when an
  escaped quote is read in quoted mode. So the loop, written with the while combinator
  (whose result is \<open>None\<close> for a loop that runs forever), returns the state that
  \<open>loop\<close> computes, after at most \<open>length t - i st\<close> runs of the body, and
  \<open>parseCsv\<close> is the result of at most \<open>length t\<close> runs of the body from the initial
  state.
\<close>

theorem parseCsv_terminates:
  "i (step t st) =
     (if inQuotes st \<and> t ! i st = dquote \<and> i st + 1 < length t \<and> t ! (i st + 1) = dquote
      then i st + 2 else i st + 1) \<and>
   while_option (\<lambda>s. i s < length t) (step t) st = Some (loop t st) \<and>
   (\<exists>n. n \<le> length t - i st \<and> loop t st = (step t ^^ n) st \<and> \<not> i (loop t st) < length t) \<and>
   (\<exists>n. n \<le> length t \<and> parseCsv t = finish ((step t ^^ n) init))"
proof -
  from loop_iterations[of t init] obtain n where
    "n \<le> length t - i init" "loop t init = (step t ^^ n) init" by blast
  then have "n \<le> length t \<and> parseCsv t = finish ((step t ^^ n) init)"
    by (simp add: parseCsv_def)
  then have "\<exists>n. n \<le> length t \<and> parseCsv t = finish ((step t ^^ n) init)" ..
  with step_index[of t st] loop_while[of t st] loop_iterations[of t st] show ?thesis by blast
qed

text \<open>The loop on the text \<open>a,b\<close>.\<close>

theorem parseCsv_terminates_witness:
  "while_option (\<lambda>s. i s < length ''a,b'') (step ''a,b'') init = Some (loop ''a,b'' init) \<and>
   parseCsv ''a,b'' = [[''a'', ''b'']]"
proof -
  have "parseCsv ''a,b'' = [[''a'', ''b'']]"
    by (simp add: parse_eval)
  with parseCsv_terminates[of "''a,b''" init] show ?thesis by blast
qed

section \<open>Suppression of blank rows\<close>



lemma parseCsv_returns:
  "\<exists>st. while_option (\<lambda>s. i s < length t) (step t) init = Some st \<and> parseCsv t = finish st"
  by (simp add: loop_while parseCsv_def)

section \<open>Quoted fields\<close>

text \<open>
  Claim C5. In quoted mode the loop body never touches the finished rows or the open row,
  so a quoted field is never split into cells or rows. From a state outside quotes at an
  opening quote, reading the quote, the field content \<open>s\<close> written with every quote
  doubled, and the closing quote (a quote that is not followed by a quote) is the same as
  appending \<open>s\<close>, whatever characters it has, to the open cell and going on after the
  closing quote. So a text that is one quoted field parses to the one cell \<open>s\<close>, and the
  field with a comma, a newline and an escaped quote parses to one cell with a comma, a
  newline and a quote.
\<close>

theorem quoted_field_literal:
  "rows (step t (st\<lparr>inQuotes := True\<rparr>)) = rows st \<and>
   row (step t (st\<lparr>inQuotes := True\<rparr>)) = row st \<and>
   (inQuotes st = False \<and> i st = length pre \<and> (\<forall>ys. rest \<noteq> dquote # ys) \<longrightarrow>
      loop (pre @ dquote # esc s @ dquote # rest) st =
      loop (pre @ dquote # esc s @ dquote # rest)
        (st\<lparr>cur := cur st @ s, i := length pre + length (esc s) + 2\<rparr>)) \<and>
   parseCsv (dquote # esc s @ [dquote]) = push_row [] [s] \<and>
   parseCsv (dquote # ''a,b'' @ newline # ''c'' @ dquote # dquote # ''d'' @ [dquote]) =
     [[''a,b'' @ newline # ''c'' @ dquote # ''d'']]"
proof -
  have 1: "rows (step t (st\<lparr>inQuotes := True\<rparr>)) = rows st \<and>
      row (step t (st\<lparr>inQuotes := True\<rparr>)) = row st"
    by (simp add: step_def Let_def)
  have 2: "loop (pre @ dquote # esc s @ dquote # rest) st =
      loop (pre @ dquote # esc s @ dquote # rest)
        (st\<lparr>cur := cur st @ s, i := length pre + length (esc s) + 2\<rparr>)"
    if u: "inQuotes st = False" and k: "i st = length pre" and n: "\<forall>ys. rest \<noteq> dquote # ys"
    by (simp add: loop_scan u k scan_open scan_esc_close[OF n])
  have n: "\<forall>ys. [] \<noteq> dquote # ys" by simp
  have 3: "parseCsv (dquote # esc s @ [dquote]) = push_row [] [s]" for s
    by (simp add: parseCsv_scan scan_open scan_esc_close[OF n])
  have "parseCsv (dquote # esc (''a,b'' @ newline # ''c'' @ dquote # ''d'') @ [dquote]) =
      [[''a,b'' @ newline # ''c'' @ dquote # ''d'']]"
    unfolding 3 by (simp add: push_row_def some_nonblank_def trim_def is_ws_def newline_def)
  then have 4: "parseCsv (dquote # ''a,b'' @ newline # ''c'' @ dquote # dquote # ''d'' @ [dquote]) =
     [[''a,b'' @ newline # ''c'' @ dquote # ''d'']]"
    by (simp add: esc_def dquote_def newline_def)
  from 1 2 3 4 show ?thesis by blast
qed

text \<open>The field \<open>x,y\<close> in quotes after the cell \<open>a\<close>.\<close>

theorem quoted_field_literal_witness:
  "loop (''a,'' @ dquote # ''x,y'' @ [dquote])
      \<lparr>rows = [], row = [''a''], cur = [], i = 2, inQuotes = False\<rparr> =
     \<lparr>rows = [], row = [''a''], cur = ''x,y'', i = 7, inQuotes = False\<rparr> \<and>
   parseCsv (''a,'' @ dquote # ''x,y'' @ [dquote]) = [[''a'', ''x,y'']]"
proof -
  let ?st = "\<lparr>rows = [], row = [''a''], cur = [], i = 2, inQuotes = False\<rparr>"
  have e: "esc ''x,y'' = ''x,y''"
    by (simp add: esc_def dquote_def)
  have r: "loop (''a,'' @ dquote # ''x,y'' @ [dquote])
      \<lparr>rows = [], row = [''a''], cur = ''x,y'', i = 7, inQuotes = False\<rparr> =
      \<lparr>rows = [], row = [''a''], cur = ''x,y'', i = 7, inQuotes = False\<rparr>"
    by (subst loop.simps) simp
  have p: "parseCsv (''a,'' @ dquote # ''x,y'' @ [dquote]) = [[''a'', ''x,y'']]"
    by (simp add: parse_eval)
  from quoted_field_literal[where st = ?st and pre = "''a,''" and rest = "[]" and s = "''x,y''"]
    r p show ?thesis
    by (simp add: e eval_nat_numeral)
qed

section \<open>Unterminated quoted fields\<close>

text \<open>
  Claim C9. For every input text the parser returns rows: its loop ends in a state and the
  result is read off that state, there is no failure. A text leaves the loop in quoted
  mode exactly when it is a text \<open>pre\<close> that ends outside quotes, then an opening quote,
  then a field content \<open>s\<close> written with every quote doubled and no closing quote. On such
  a text the flag stays set, the content read so far is the last cell of the open row, and
  that row is filed like any other.
\<close>

theorem parseCsv_unterminated:
  "(\<exists>st. while_option (\<lambda>s. i s < length t) (step t) init = Some st \<and> parseCsv t = finish st) \<and>
   (inQuotes (loop t init) \<longrightarrow>
      (\<exists>pre s. t = pre @ dquote # esc s \<and> (pre = [] \<or> last pre \<noteq> dquote) \<and>
         inQuotes (loop pre init) = False)) \<and>
   ((pre = [] \<or> last pre \<noteq> dquote) \<and> inQuotes (loop pre init) = False \<longrightarrow>
      loop (pre @ dquote # esc s) init =
        (loop pre init)\<lparr>cur := cur (loop pre init) @ s, i := length (pre @ dquote # esc s),
          inQuotes := True\<rparr> \<and>
      parseCsv (pre @ dquote # esc s) =
        push_row (rows (loop pre init)) (row (loop pre init) @ [cur (loop pre init) @ s]))"
proof -
  have 1: "\<exists>pre s. t = pre @ dquote # esc s \<and> (pre = [] \<or> last pre \<noteq> dquote) \<and>
         inQuotes (loop pre init) = False"
    if u: "inQuotes (loop t init)"
  proof -
    from u have "ends_quoted (scan push_row [] [] [] False t)"
      by (simp add: inQuotes_loop ends_quoted_def)
    from scan_ends_quoted[OF this] show ?thesis
      by (simp add: inQuotes_loop ends_quoted_def)
  qed
  have 2: "loop (pre @ dquote # esc s) init =
        (loop pre init)\<lparr>cur := cur (loop pre init) @ s, i := length (pre @ dquote # esc s),
          inQuotes := True\<rparr> \<and>
      parseCsv (pre @ dquote # esc s) =
        push_row (rows (loop pre init)) (row (loop pre init) @ [cur (loop pre init) @ s])"
    if a: "pre = [] \<or> last pre \<noteq> dquote" and u: "inQuotes (loop pre init) = False"
  proof -
    obtain rs r c where p: "scan push_row [] [] [] False pre = (rs, r, c, False)"
      using u by (cases "scan push_row [] [] [] False pre") (simp add: inQuotes_loop)
    have e: "scan push_row [] [] [] False (pre @ dquote # esc s) = (rs, r, c @ s, True)"
      by (simp add: scan_append_no_quote[OF a] p scan_open scan_esc)
    show ?thesis
      by (simp add: parseCsv_scan loop_init_scan e p of_scan_def)
  qed
  from parseCsv_returns[of t] 1 2 show ?thesis by blast
qed

text \<open>The text \<open>x,\<close>, an opening quote and two lines with no closing quote.\<close>

theorem parseCsv_unterminated_witness:
  "inQuotes (loop ''x,'' init) = False \<and> last ''x,'' \<noteq> dquote \<and>
   inQuotes (loop (''x,'' @ dquote # ''abc'' @ newline # ''d,e'') init) = True \<and>
   parseCsv (''x,'' @ dquote # ''abc'' @ newline # ''d,e'') = [[''x'', ''abc'' @ newline # ''d,e'']] \<and>
   (\<exists>pre s. ''x,'' @ dquote # ''abc'' @ newline # ''d,e'' = pre @ dquote # esc s \<and>
      (pre = [] \<or> last pre \<noteq> dquote) \<and> inQuotes (loop pre init) = False)"
proof -
  let ?t = "''x,'' @ dquote # ''abc'' @ newline # ''d,e''"
  have h: "inQuotes (loop ''x,'' init) = False"
    by (simp add: inQuotes_loop parse_eval)
  have l: "last ''x,'' \<noteq> dquote" by (simp add: dquote_def)
  have v: "loop ''x,'' init = \<lparr>rows = [], row = [''x''], cur = [], i = 2, inQuotes = False\<rparr>"
    by (simp add: loop_init_scan of_scan_def parse_eval)
  have e: "esc (''abc'' @ newline # ''d,e'') = ''abc'' @ newline # ''d,e''"
    by (simp add: esc_def dquote_def newline_def)
  note T = parseCsv_unterminated[of ?t "''x,''" "''abc'' @ newline # ''d,e''"]
  from T h l have a: "loop (''x,'' @ dquote # esc (''abc'' @ newline # ''d,e'')) init =
        (loop ''x,'' init)\<lparr>cur := cur (loop ''x,'' init) @ ''abc'' @ newline # ''d,e'',
          i := length (''x,'' @ dquote # esc (''abc'' @ newline # ''d,e'')), inQuotes := True\<rparr>"
    and b: "parseCsv (''x,'' @ dquote # esc (''abc'' @ newline # ''d,e'')) =
        push_row (rows (loop ''x,'' init))
          (row (loop ''x,'' init) @ [cur (loop ''x,'' init) @ ''abc'' @ newline # ''d,e''])"
    by blast+
  from a have q: "inQuotes (loop ?t init) = True"
    unfolding e by simp
  from b have r: "parseCsv ?t = [[''x'', ''abc'' @ newline # ''d,e'']]"
    unfolding e v by (simp add: push_row_def some_nonblank_def trim_def is_ws_def)
  from T q have "\<exists>pre s. ?t = pre @ dquote # esc s \<and>
      (pre = [] \<or> last pre \<noteq> dquote) \<and> inQuotes (loop pre init) = False"
    by blast
  with h l q r show ?thesis by blast
qed

section \<open>The run on the example of the specification\<close>

text \<open>
  Claim C1. On the text whose header line is
  \<open>Datum,Nazev,Soubor,Misto,Mesto,Hostovacka,StazenoZR,Zanry,Hodnoceni,Komentar\<close> and whose
  only data line is \<open>2024-01-01,Hamlet,Troupe,Theatre,City,A,N,drama;tragedy,92,Great show\<close>
  the parser returns the two rows of ten cells, and the run prints no warning and writes
  exactly one record: date \<open>2024-01-01\<close>, title \<open>Hamlet\<close>, theatre \<open>Troupe\<close>, place
  \<open>Theatre\<close>, city \<open>City\<close>, host true, removed false, genres \<open>drama\<close> and \<open>tragedy\<close>,
  rating 92, comment \<open>Great show\<close>.
\<close>

theorem end_to_end_example:
  "parseCsv (''Datum,Nazev,Soubor,Misto,Mesto,Hostovacka,StazenoZR,Zanry,Hodnoceni,Komentar'' @
      newline # ''2024-01-01,Hamlet,Troupe,Theatre,City,A,N,drama;tragedy,92,Great show'') =
   [[''Datum'', ''Nazev'', ''Soubor'', ''Misto'', ''Mesto'', ''Hostovacka'', ''StazenoZR'',
      ''Zanry'', ''Hodnoceni'', ''Komentar''],
    [''2024-01-01'', ''Hamlet'', ''Troupe'', ''Theatre'', ''City'', ''A'', ''N'',
      ''drama;tragedy'', ''92'', ''Great show'']] \<and>
   main (Some
     (''Datum,Nazev,Soubor,Misto,Mesto,Hostovacka,StazenoZR,Zanry,Hodnoceni,Komentar'' @
      newline # ''2024-01-01,Hamlet,Troupe,Theatre,City,A,N,drama;tragedy,92,Great show'')) =
   Inr \<lparr>warned = [],
        written =
          [\<lparr>date = ''2024-01-01'', title = ''Hamlet'', theatre = ''Troupe'',
              place = ''Theatre'', city = ''City'', host = True, removed = False,
              genres = [''drama'', ''tragedy''], rating = Some (Fin 92),
              comment = ''Great show''\<rparr>]\<rparr>"
proof -
  let ?T = "''Datum,Nazev,Soubor,Misto,Mesto,Hostovacka,StazenoZR,Zanry,Hodnoceni,Komentar'' @
      newline # ''2024-01-01,Hamlet,Troupe,Theatre,City,A,N,drama;tragedy,92,Great show''"
  let ?h = "[''Datum'', ''Nazev'', ''Soubor'', ''Misto'', ''Mesto'', ''Hostovacka'',
      ''StazenoZR'', ''Zanry'', ''Hodnoceni'', ''Komentar'']"
  let ?r = "[''2024-01-01'', ''Hamlet'', ''Troupe'', ''Theatre'', ''City'', ''A'', ''N'',
      ''drama;tragedy'', ''92'', ''Great show'']"
  let ?s = "\<lparr>date = ''2024-01-01'', title = ''Hamlet'', theatre = ''Troupe'',
              place = ''Theatre'', city = ''City'', host = True, removed = False,
              genres = [''drama'', ''tragedy''], rating = Some (Fin 92),
              comment = ''Great show''\<rparr>"
  have p: "parseCsv ?T = [?h, ?r]"
    by (simp add: parse_eval)
  have ix: "header_idx ?h ''Datum'' = Some 0" "header_idx ?h ''Nazev'' = Some 1"
    "header_idx ?h ''Soubor'' = Some 2" "header_idx ?h ''Misto'' = Some 3"
    "header_idx ?h ''Mesto'' = Some 4" "header_idx ?h ''Hostovacka'' = Some 5"
    "header_idx ?h ''StazenoZR'' = Some 6" "header_idx ?h ''Zanry'' = Some 7"
    "header_idx ?h ''Hodnoceni'' = Some 8" "header_idx ?h ''Komentar'' = Some 9"
    using header_example by (simp_all add: required_def)
  have g: "get (header_idx ?h) ?r ''Datum'' = ''2024-01-01''"
    "get (header_idx ?h) ?r ''Nazev'' = ''Hamlet''"
    "get (header_idx ?h) ?r ''Soubor'' = ''Troupe''"
    "get (header_idx ?h) ?r ''Misto'' = ''Theatre''"
    "get (header_idx ?h) ?r ''Mesto'' = ''City''"
    "get (header_idx ?h) ?r ''Hostovacka'' = ''A''"
    "get (header_idx ?h) ?r ''StazenoZR'' = ''N''"
    "get (header_idx ?h) ?r ''Zanry'' = ''drama;tragedy''"
    "get (header_idx ?h) ?r ''Hodnoceni'' = ''92''"
    "get (header_idx ?h) ?r ''Komentar'' = ''Great show''"
    unfolding get_def ix by (simp_all add: trim_def is_ws_def)
  have c: "normBool ''A''" "\<not> normBool ''N''"
    "splitGenres ''drama;tragedy'' = [''drama'', ''tragedy'']"
    "toNumberOrNull ''92'' = Some (Fin 92)"
    by (simp_all add: bool_eval genres_eval number_eval)
  have n: "normRow (header_idx ?h) (0, ?r) = Inr ?s"
    by (simp add: normRow_def g c)
  have m: "filter (\<lambda>r. header_idx ?h r = None) required = []"
    unfolding required_def by (simp add: ix)
  have "main (Some ?T) = main_rows (parseCsv ?T)"
    by (simp only: main_def option.case)
  also have "\<dots> = main_rows [?h, ?r]"
    by (simp only: p)
  also have "\<dots> = Inr (normalize (header_idx ?h) [?r])"
    by (simp add: main_rows_def Let_def trim_def is_ws_def m)
  also have "\<dots> = Inr \<lparr>warned = [], written = [?s]\<rparr>"
    unfolding normalize_def
    by (simp add: enumerate_simps n List.map_filter_simps warning_of_def record_of_def)
  finally have "main (Some ?T) = Inr \<lparr>warned = [], written = [?s]\<rparr>" .
  with p show ?thesis by (rule conjI)
qed

section \<open>Genre lists\<close>



section \<open>Boolean columns\<close>



section \<open>Missing columns\<close>



section \<open>Rows without date or title\<close>



section \<open>Numeric coercion\<close>




end
